theory Spec2Isabelle
  imports Main "HOL-Library.AList"
begin

section \<open>Python text primitives used by \<open>hdfs_info.py\<close>\<close>

text \<open>
  Report text is modelled as a list of 8-bit characters, each read as the code point of
  the same number (0 to 255).  On that range the primitives below are the ones of the
  Python \<open>str\<close> type: the whitespace of \<open>str.strip\<close>, the line boundaries of
  \<open>str.splitlines\<close>, the case mapping of \<open>str.lower\<close>, and the literals accepted by
  \<open>int\<close>.  The interpreter's configurable limit on the number of digits of such a
  literal is not modelled.
\<close>

definition py_isspace :: "char \<Rightarrow> bool" where
  "py_isspace c = (c \<in> set [CHR 0x09, CHR 0x0A, CHR 0x0B, CHR 0x0C, CHR 0x0D,
     CHR 0x1C, CHR 0x1D, CHR 0x1E, CHR 0x1F, CHR 0x20, CHR 0x85, CHR 0xA0])"

definition py_linebreak :: "char \<Rightarrow> bool" where
  "py_linebreak c = (c \<in> set [CHR 0x0A, CHR 0x0B, CHR 0x0C, CHR 0x0D,
     CHR 0x1C, CHR 0x1D, CHR 0x1E, CHR 0x85])"

text \<open>\<open>s.strip()\<close>\<close>

definition strip :: "string \<Rightarrow> string" where
  "strip s = rev (dropWhile py_isspace (rev (dropWhile py_isspace s)))"

text \<open>
  \<open>s.splitlines()\<close>: a carriage return followed by a line feed is one boundary, and a
  boundary at the very end of the text opens no further line.
\<close>

fun splitlines_from :: "string \<Rightarrow> string \<Rightarrow> string list" where
  "splitlines_from cur [] = (if cur = [] then [] else [cur])"
| "splitlines_from cur (c # cs) =
     (if c = CHR 0x0D then
        (case cs of
           [] \<Rightarrow> cur # splitlines_from [] cs
         | d # ds \<Rightarrow>
             if d = CHR 0x0A then cur # splitlines_from [] ds
             else cur # splitlines_from [] cs)
      else if py_linebreak c then cur # splitlines_from [] cs
      else splitlines_from (cur @ [c]) cs)"

definition splitlines :: "string \<Rightarrow> string list" where
  "splitlines s = splitlines_from [] s"

text \<open>\<open>s.split(' (')[0]\<close>: the text before the first space followed by an opening parenthesis.\<close>

fun before_paren :: "string \<Rightarrow> string" where
  "before_paren [] = []"
| "before_paren [c] = [c]"
| "before_paren (c # d # cs) =
     (if c = CHR '' '' \<and> d = CHR ''('' then [] else c # before_paren (d # cs))"

text \<open>\<open>s.lower()\<close>, character by character.\<close>

definition lower_char :: "char \<Rightarrow> char" where
  "lower_char c =
     (let n = (of_char c :: nat)
      in if (65 \<le> n \<and> n \<le> 90) \<or> (192 \<le> n \<and> n \<le> 222 \<and> n \<noteq> 215)
         then char_of (n + 32) else c)"

definition lower :: "string \<Rightarrow> string" where
  "lower s = map lower_char s"

text \<open>\<open>s.replace(' ', '_')\<close> and \<open>s.replace('%', '_pct')\<close>\<close>

definition replace_space :: "string \<Rightarrow> string" where
  "replace_space s = map (\<lambda>c. if c = CHR '' '' then CHR ''_'' else c) s"

definition replace_pct :: "string \<Rightarrow> string" where
  "replace_pct s = concat (map (\<lambda>c. if c = CHR ''%'' then ''_pct'' else [c]) s)"

text \<open>
  \<open>key.strip().split(' (')[0].lower().replace(' ', '_').replace('%', '_pct')\<close>, the key
  normalisation of \<open>interpret_dfsadmin_report\<close>.
\<close>

definition normalize_key :: "string \<Rightarrow> string" where
  "normalize_key k = replace_pct (replace_space (lower (before_paren (strip k))))"

text \<open>\<open>key, value = line.split(':', 1)\<close>, for a line that contains a colon.\<close>

definition key_part :: "string \<Rightarrow> string" where
  "key_part line = takeWhile (\<lambda>c. c \<noteq> CHR '':'') line"

definition value_part :: "string \<Rightarrow> string" where
  "value_part line = tl (dropWhile (\<lambda>c. c \<noteq> CHR '':'') line)"

text \<open>\<open>line.split('(')[-1].split(')')[0]\<close>\<close>

definition count_text :: "string \<Rightarrow> string" where
  "count_text line =
     takeWhile (\<lambda>c. c \<noteq> CHR '')'') (rev (takeWhile (\<lambda>c. c \<noteq> CHR ''('') (rev line)))"

text \<open>
  \<open>int(s)\<close>: optional whitespace, an optional sign, decimal digits with single
  underscores allowed between two digits, optional whitespace.  \<open>None\<close> stands for the
  \<open>ValueError\<close> that \<open>int\<close> raises on any other text.
\<close>

definition int_space :: "char \<Rightarrow> bool" where
  "int_space c = (c \<in> set [CHR 0x09, CHR 0x0A, CHR 0x0B, CHR 0x0C, CHR 0x0D,
     CHR 0x20, CHR 0x85, CHR 0xA0])"

definition is_digit :: "char \<Rightarrow> bool" where
  "is_digit c = (c \<in> set ''0123456789'')"

definition digit_val :: "char \<Rightarrow> int" where
  "digit_val c = int (of_char c - 48)"

fun int_digits :: "int \<Rightarrow> string \<Rightarrow> int option" where
  "int_digits acc [] = Some acc"
| "int_digits acc (c # cs) =
     (if is_digit c then int_digits (acc * 10 + digit_val c) cs
      else if c = CHR ''_'' then
        (case cs of
           [] \<Rightarrow> None
         | d # ds \<Rightarrow>
             if is_digit d then int_digits (acc * 10 + digit_val d) ds else None)
      else if list_all int_space (c # cs) then Some acc
      else None)"

definition int_unsigned :: "string \<Rightarrow> int option" where
  "int_unsigned s =
     (case s of
        [] \<Rightarrow> None
      | d # ds \<Rightarrow> if is_digit d then int_digits (digit_val d) ds else None)"

definition py_int :: "string \<Rightarrow> int option" where
  "py_int s =
     (case dropWhile int_space s of
        [] \<Rightarrow> None
      | c # cs \<Rightarrow>
          if c = CHR ''-'' then map_option uminus (int_unsigned cs)
          else if c = CHR ''+'' then int_unsigned cs
          else int_unsigned (c # cs))"

section \<open>Parsed values\<close>

text \<open>
  A Python dictionary keeps its keys in insertion order, and assigning to a key that is
  present replaces the value in place: an association list under \<open>AList.update\<close>.
  The values of the top-level dictionary are strings, dictionaries of strings, and lists
  of dictionaries of strings.
\<close>

type_synonym obj = "(string \<times> string) list"

datatype Value = Leaf string | Object obj | List "obj list"

type_synonym report = "(string \<times> Value) list"

datatype py_error = ValueError string | TypeError | KeyError string

section \<open>\<open>interpret_fsck_output\<close>\<close>

text \<open>The state of the loop: \<open>fsck_dict\<close> and \<open>current_section\<close>.\<close>

type_synonym fsck_state = "report \<times> string option"

definition fsck_step :: "fsck_state \<Rightarrow> string \<Rightarrow> py_error + fsck_state" where
  "fsck_step st line =
     (case st of (fsck_dict, current_section) \<Rightarrow>
        if CHR '':'' \<in> set line then
          (let key = strip (key_part line);
               val = strip (value_part line)
           in if val = [] then
                Inr (AList.update key (Object []) fsck_dict, Some key)
              else
                (case current_section of
                   Some sec \<Rightarrow>
                     (case map_of fsck_dict sec of
                        None \<Rightarrow> Inl (KeyError sec)
                      | Some (Object ob) \<Rightarrow>
                          Inr (AList.update sec (Object (AList.update key val ob)) fsck_dict,
                               current_section)
                      | Some _ \<Rightarrow> Inl TypeError)
                 | None \<Rightarrow> Inr (AList.update key (Leaf val) fsck_dict, current_section)))
        else Inr st)"

fun fsck_loop :: "fsck_state \<Rightarrow> string list \<Rightarrow> py_error + fsck_state" where
  "fsck_loop st [] = Inr st"
| "fsck_loop st (line # ls) =
     (case fsck_step st line of Inl e \<Rightarrow> Inl e | Inr st' \<Rightarrow> fsck_loop st' ls)"

definition interpret_fsck_output :: "string \<Rightarrow> py_error + report" where
  "interpret_fsck_output fsck_output =
     (case fsck_loop ([], None) (splitlines fsck_output) of
        Inl e \<Rightarrow> Inl e
      | Inr st \<Rightarrow> Inr (fst st))"

section \<open>\<open>interpret_dfsadmin_report\<close>\<close>

record dfs_state =
  dfsadmin_dict :: report
  current_section :: "string option"
  current_object_list :: "obj list"
  current_object :: obj
  objects_remaining :: int
  in_object_section :: bool
  is_array :: bool

definition dfs_init :: dfs_state where
  "dfs_init = \<lparr>dfsadmin_dict = [], current_section = None, current_object_list = [],
     current_object = [], objects_remaining = 0, in_object_section = False,
     is_array = False\<rparr>"

text \<open>
  Lines 201 to 206: the value of the section that is open goes into the dictionary when
  the next header arrives.
\<close>

definition flush_on_header :: "dfs_state \<Rightarrow> report" where
  "flush_on_header s =
     (case current_section s of
        None \<Rightarrow> dfsadmin_dict s
      | Some sec \<Rightarrow>
          if sec = [] then dfsadmin_dict s
          else if is_array s then
            AList.update sec (List (current_object_list s)) (dfsadmin_dict s)
          else AList.update sec (Object (current_object s)) (dfsadmin_dict s))"

text \<open>Line 209: the count of the header, or the \<open>ValueError\<close> of \<open>int\<close>.\<close>

definition header_count :: "string \<Rightarrow> py_error + int" where
  "header_count line =
     (if CHR ''('' \<in> set (key_part line) then
        (case py_int (count_text line) of
           None \<Rightarrow> Inl (ValueError (count_text line))
         | Some n \<Rightarrow> Inr n)
      else Inr 1)"

text \<open>Lines 199 to 213: a line whose value is empty opens a section.\<close>

definition open_section :: "dfs_state \<Rightarrow> string \<Rightarrow> string \<Rightarrow> py_error + dfs_state" where
  "open_section s line key =
     (case header_count line of
        Inl e \<Rightarrow> Inl e
      | Inr n \<Rightarrow>
          Inr \<lparr>dfsadmin_dict = flush_on_header s, current_section = Some key,
               current_object_list = [], current_object = [], objects_remaining = n,
               in_object_section = (n > 0), is_array = (CHR ''('' \<in> set line)\<rparr>)"

text \<open>
  Lines 214 to 224: a line whose value is not empty.  Assigning through a string key into
  a dictionary entry that holds a string or a list raises \<open>TypeError\<close>.
\<close>

definition store_pair :: "dfs_state \<Rightarrow> string \<Rightarrow> string \<Rightarrow> py_error + dfs_state" where
  "store_pair s key val =
     (if in_object_section s \<and> objects_remaining s > 0 then
        Inr (s\<lparr>current_object := AList.update key val (current_object s)\<rparr>)
      else
        (case current_section s of
           None \<Rightarrow> Inr (s\<lparr>dfsadmin_dict := AList.update key (Leaf val) (dfsadmin_dict s)\<rparr>)
         | Some sec \<Rightarrow>
             if sec = [] then
               Inr (s\<lparr>dfsadmin_dict := AList.update key (Leaf val) (dfsadmin_dict s)\<rparr>)
             else
               (let d = (if map_of (dfsadmin_dict s) sec = None
                         then AList.update sec (Object []) (dfsadmin_dict s)
                         else dfsadmin_dict s)
                in case map_of d sec of
                     Some (Object ob) \<Rightarrow>
                       Inr (s\<lparr>dfsadmin_dict :=
                              AList.update sec (Object (AList.update key val ob)) d\<rparr>)
                   | _ \<Rightarrow> Inl TypeError)))"

text \<open>Lines 225 to 236: a blank line.\<close>

definition close_entry :: "dfs_state \<Rightarrow> dfs_state" where
  "close_entry s =
     (case current_section s of
        None \<Rightarrow> s
      | Some sec \<Rightarrow>
          if \<not> in_object_section s then s
          else if \<not> is_array s then
            s\<lparr>dfsadmin_dict := AList.update sec (Object (current_object s)) (dfsadmin_dict s),
              current_section := None,
              objects_remaining := objects_remaining s - 1,
              current_object := []\<rparr>
          else if current_object s \<noteq> [] then
            s\<lparr>current_object_list := current_object_list s @ [current_object s],
              objects_remaining := objects_remaining s - 1,
              current_object := []\<rparr>
          else s\<lparr>current_object := []\<rparr>)"

text \<open>The body of the loop, lines 193 to 236.\<close>

definition dfs_step :: "dfs_state \<Rightarrow> string \<Rightarrow> py_error + dfs_state" where
  "dfs_step s raw =
     (let line = strip raw
      in if CHR '':'' \<in> set line then
           (let key = normalize_key (key_part line);
                val = before_paren (strip (value_part line))
            in if val = [] then open_section s line key else store_pair s key val)
         else if line = [] then Inr (close_entry s)
         else Inr s)"

fun dfs_loop :: "dfs_state \<Rightarrow> string list \<Rightarrow> py_error + dfs_state" where
  "dfs_loop s [] = Inr s"
| "dfs_loop s (line # ls) =
     (case dfs_step s line of Inl e \<Rightarrow> Inl e | Inr s' \<Rightarrow> dfs_loop s' ls)"

text \<open>Lines 238 to 247: the section still open at the end of the text.\<close>

definition dfs_finish :: "dfs_state \<Rightarrow> report" where
  "dfs_finish s =
     (case current_section s of
        None \<Rightarrow> dfsadmin_dict s
      | Some sec \<Rightarrow>
          if sec = [] then dfsadmin_dict s
          else if is_array s then
            AList.update sec
              (List (if current_object s \<noteq> []
                     then current_object_list s @ [current_object s]
                     else current_object_list s))
              (dfsadmin_dict s)
          else AList.update sec (Object (current_object s)) (dfsadmin_dict s))"

definition interpret_dfsadmin_report :: "string \<Rightarrow> py_error + report" where
  "interpret_dfsadmin_report dfsadmin_output =
     (case dfs_loop dfs_init (splitlines dfsadmin_output) of
        Inl e \<Rightarrow> Inl e
      | Inr s \<Rightarrow> Inr (dfs_finish s))"

section \<open>Reading a result\<close>

text \<open>\<open>report[k]\<close> on what a parser returned; \<open>None\<close> when the key is absent or
  the parser raised.\<close>

definition lookup :: "py_error + report \<Rightarrow> string \<Rightarrow> Value option" where
  "lookup res k = (case res of Inl e \<Rightarrow> None | Inr d \<Rightarrow> map_of d k)"

text \<open>The keys of a report: those of the top level and those of the objects below it.\<close>

fun value_keys :: "Value \<Rightarrow> string list" where
  "value_keys (Leaf v) = []"
| "value_keys (Object ob) = map fst ob"
| "value_keys (List obs) = concat (map (map fst) obs)"

definition report_keys :: "report \<Rightarrow> string list" where
  "report_keys r = map fst r @ concat (map (\<lambda>kv. value_keys (snd kv)) r)"

text \<open>
  While \<open>interpret_fsck_output\<close> runs, the section that is open holds an object in the
  dictionary.
\<close>

definition fsck_inv :: "fsck_state \<Rightarrow> bool" where
  "fsck_inv st =
     (case snd st of None \<Rightarrow> True
      | Some sec \<Rightarrow> (case map_of (fst st) sec of Some (Object ob) \<Rightarrow> True | _ \<Rightarrow> False))"

text \<open>
  The number of entries in the lines that follow the header of an array section: the
  maximal runs of lines that are not blank, each closed by a blank line or by the end of
  the lines.
\<close>

fun entry_count :: "string list \<Rightarrow> nat" where
  "entry_count [] = 0"
| "entry_count [l] = (if strip l = [] then 0 else 1)"
| "entry_count (l # m # ls) =
     (if strip l \<noteq> [] \<and> strip m = [] then 1 else 0) + entry_count (m # ls)"


section \<open>Facts about the text primitives\<close>

subsection \<open>Characters\<close>

lemma char_eq_nat: "(c = d) = ((of_char c :: nat) = of_char d)"
  by simp

lemma of_char_lower_char:
  "(of_char (lower_char c) :: nat) =
     (if (65 \<le> (of_char c :: nat) \<and> (of_char c :: nat) \<le> 90) \<or> (192 \<le> (of_char c :: nat) \<and> (of_char c :: nat) \<le> 222 \<and> (of_char c :: nat) \<noteq> 215)
      then of_char c + 32 else of_char c)"
  by (simp add: lower_char_def Let_def)

lemma py_isspace_nat:
  "py_isspace c = ((of_char c :: nat) \<in> {9, 10, 11, 12, 13, 28, 29, 30, 31, 32, 133, 160})"
  unfolding py_isspace_def by (simp add: char_eq_nat [of c] del: of_char_eq_iff)

lemma py_isspace_lower_char: "py_isspace (lower_char c) = py_isspace c"
  unfolding py_isspace_nat of_char_lower_char by auto

lemma lower_char_idem: "lower_char (lower_char c) = lower_char c"
  unfolding char_eq_nat [of "lower_char (lower_char c)"] of_char_lower_char by auto

lemma lower_char_eq_space: "(lower_char c = CHR '' '') = (c = CHR '' '')"
  unfolding char_eq_nat [of _ "CHR '' ''"] of_char_lower_char by auto

lemma lower_char_eq_pct: "(lower_char c = CHR ''%'') = (c = CHR ''%'')"
  unfolding char_eq_nat [of _ "CHR ''%''"] of_char_lower_char by auto

lemma lower_char_fixed:
  "lower_char (CHR ''_'') = CHR ''_''" "lower_char (CHR ''p'') = CHR ''p''"
  "lower_char (CHR ''c'') = CHR ''c''" "lower_char (CHR ''t'') = CHR ''t''"
  by (simp_all add: lower_char_def)

lemma space_is_space: "py_isspace (CHR '' '')"
  by (simp add: py_isspace_def)

subsection \<open>Trimming\<close>

lemma strip_Nil: "strip [] = []"
  by (simp add: strip_def)

lemma rstrip_decomp:
  "rev (dropWhile P (rev t)) @ rev (takeWhile P (rev t)) = t"
proof -
  have "rev (dropWhile P (rev t)) @ rev (takeWhile P (rev t))
          = rev (takeWhile P (rev t) @ dropWhile P (rev t))"
    by (simp only: rev_append)
  also have "\<dots> = rev (rev t)"
    by (simp only: takeWhile_dropWhile_id)
  finally show ?thesis by simp
qed

lemma strip_decomp:
  "dropWhile py_isspace s
     = strip s @ rev (takeWhile py_isspace (rev (dropWhile py_isspace s)))"
  unfolding strip_def by (simp only: rstrip_decomp)

lemma set_strip: "set (strip s) \<subseteq> set s"
proof -
  have "set (strip s) \<subseteq> set (dropWhile py_isspace s)"
    unfolding strip_def using set_dropWhileD by fastforce
  then show ?thesis
    using set_dropWhileD by fastforce
qed

lemma strip_last: "strip s \<noteq> [] \<Longrightarrow> \<not> py_isspace (last (strip s))"
  unfolding strip_def by (simp add: last_rev hd_dropWhile)

lemma strip_hd:
  assumes "strip s \<noteq> []" shows "\<not> py_isspace (hd (strip s))"
proof -
  let ?t = "dropWhile py_isspace s"
  have t: "?t = strip s @ rev (takeWhile py_isspace (rev ?t))"
    by (rule strip_decomp)
  then have ne: "?t \<noteq> []" using assms by (metis append_is_Nil_conv)
  then have "\<not> py_isspace (hd ?t)" by (rule hd_dropWhile)
  moreover have "hd ?t = hd (strip s)"
    using t assms by (metis hd_append2)
  ultimately show ?thesis by simp
qed

lemma strip_id:
  assumes "s = [] \<or> (\<not> py_isspace (hd s) \<and> \<not> py_isspace (last s))"
  shows "strip s = s"
proof (cases "s = []")
  case True then show ?thesis by (simp add: strip_Nil)
next
  case False
  with assms have h: "\<not> py_isspace (hd s)" and l: "\<not> py_isspace (last s)" by auto
  from False h have 1: "dropWhile py_isspace s = s"
    by (simp add: dropWhile_eq_self_iff)
  from False l have 2: "dropWhile py_isspace (rev s) = rev s"
    by (simp add: dropWhile_eq_self_iff hd_rev)
  show ?thesis by (simp add: strip_def 1 2)
qed

lemma strip_eq_self_iff:
  "strip s = s \<longleftrightarrow> s = [] \<or> (\<not> py_isspace (hd s) \<and> \<not> py_isspace (last s))"
  using strip_id [of s] strip_hd [of s] strip_last [of s] by auto

lemma strip_eq_Nil_iff: "strip s = [] \<longleftrightarrow> (\<forall>c\<in>set s. py_isspace c)"
proof
  assume a: "strip s = []"
  let ?t = "dropWhile py_isspace s"
  have "?t = []"
  proof (rule ccontr)
    assume ne: "?t \<noteq> []"
    then have h: "\<not> py_isspace (hd ?t)" by (rule hd_dropWhile)
    have "?t = rev (takeWhile py_isspace (rev ?t))"
      using strip_decomp [of s] a by simp
    then have "set ?t = set (takeWhile py_isspace (rev ?t))"
      by (metis set_rev)
    then have "\<forall>c\<in>set ?t. py_isspace c"
      by (metis set_takeWhileD)
    with ne h show False by (metis hd_in_set)
  qed
  then show "\<forall>c\<in>set s. py_isspace c" by simp
next
  assume "\<forall>c\<in>set s. py_isspace c"
  then have d: "dropWhile py_isspace s = []" by simp
  show "strip s = []" unfolding strip_def d by simp
qed

lemma strip_idem: "strip (strip s) = strip s"
  by (rule strip_id) (use strip_hd strip_last in blast)

subsection \<open>Cutting at the first parenthetical\<close>

lemma before_paren_no_space: "CHR '' '' \<notin> set s \<Longrightarrow> before_paren s = s"
  by (induction s rule: before_paren.induct) auto

lemma before_paren_eq_Nil_iff:
  "before_paren s = [] \<longleftrightarrow> s = [] \<or> take 2 s = '' (''"
  by (induction s rule: before_paren.induct) auto

lemma set_before_paren: "set (before_paren s) \<subseteq> set s"
  by (induction s rule: before_paren.induct) auto

lemma hd_before_paren: "before_paren s \<noteq> [] \<Longrightarrow> hd (before_paren s) = hd s"
  by (induction s rule: before_paren.induct) auto


lemma before_paren_strip_Nil: "before_paren (strip s) = [] \<longleftrightarrow> strip s = []"
proof -
  have "take 2 (strip s) \<noteq> '' (''"
  proof
    assume a: "take 2 (strip s) = '' (''"
    then have "strip s \<noteq> []" by auto
    moreover from a have "hd (strip s) = CHR '' ''"
      by (cases "strip s") auto
    ultimately show False using strip_hd [of s] space_is_space by simp
  qed
  then show ?thesis by (simp add: before_paren_eq_Nil_iff)
qed


subsection \<open>Normalised keys\<close>

lemma set_replace_pct: "set (replace_pct s) \<subseteq> (set s - {CHR ''%''}) \<union> set ''_pct''"
  by (induction s) (auto simp: replace_pct_def)

lemma replace_pct_id: "CHR ''%'' \<notin> set s \<Longrightarrow> replace_pct s = s"
  by (induction s) (auto simp: replace_pct_def)

lemma replace_space_id: "CHR '' '' \<notin> set s \<Longrightarrow> replace_space s = s"
  by (induction s) (auto simp: replace_space_def)

lemma lower_id: "\<forall>c\<in>set s. lower_char c = c \<Longrightarrow> lower s = s"
  by (induction s) (auto simp: lower_def)

lemma set_replace_space:
  "set (replace_space s) \<subseteq> (set s - {CHR '' ''}) \<union> {CHR ''_''}"
  by (auto simp: replace_space_def)

lemma normalize_key_chars:
  assumes "c \<in> set (normalize_key k)"
  shows "c \<in> set ''_pct'' \<or> (c \<noteq> CHR '' '' \<and> c \<noteq> CHR ''%'' \<and> (\<exists>d\<in>set k. c = lower_char d))"
proof -
  let ?p = "before_paren (strip k)"
  from assms have "c \<in> (set (replace_space (lower ?p)) - {CHR ''%''}) \<union> set ''_pct''"
    unfolding normalize_key_def using set_replace_pct by blast
  then consider "c \<in> set ''_pct''" | "c \<noteq> CHR ''%''" "c \<in> set (replace_space (lower ?p))"
    by blast
  then show ?thesis
  proof cases
    case 1 then show ?thesis by simp
  next
    case 2
    then have "c \<in> (set (lower ?p) - {CHR '' ''}) \<union> {CHR ''_''}"
      using set_replace_space by blast
    then consider "c = CHR ''_''" | "c \<noteq> CHR '' ''" "c \<in> set (lower ?p)"
      by blast
    then show ?thesis
    proof cases
      case 1 then show ?thesis by simp
    next
      case 2
      then obtain d where "d \<in> set ?p" "c = lower_char d"
        by (auto simp: lower_def)
      moreover have "set ?p \<subseteq> set k"
        using set_before_paren set_strip by blast
      ultimately show ?thesis using 2 \<open>c \<noteq> CHR ''%''\<close> by blast
    qed
  qed
qed

lemma normalize_key_fixed:
  assumes "CHR '' '' \<notin> set q" "CHR ''%'' \<notin> set q" "\<forall>c\<in>set q. lower_char c = c"
  shows "normalize_key q = strip q"
proof -
  have sub: "set (strip q) \<subseteq> set q" by (rule set_strip)
  have 1: "before_paren (strip q) = strip q"
    using sub assms(1) by (intro before_paren_no_space) blast
  have 2: "lower (strip q) = strip q"
    using sub assms(3) by (intro lower_id) blast
  have 3: "replace_space (strip q) = strip q"
    using sub assms(1) by (intro replace_space_id) blast
  have 4: "replace_pct (strip q) = strip q"
    using sub assms(2) by (intro replace_pct_id) blast
  show ?thesis by (simp add: normalize_key_def 1 2 3 4)
qed

lemma normalize_key_twice: "normalize_key (normalize_key k) = strip (normalize_key k)"
proof (rule normalize_key_fixed)
  show "CHR '' '' \<notin> set (normalize_key k)"
    using normalize_key_chars [of "CHR '' ''" k] by auto
  show "CHR ''%'' \<notin> set (normalize_key k)"
    using normalize_key_chars [of "CHR ''%''" k] by auto
  show "\<forall>c\<in>set (normalize_key k). lower_char c = c"
  proof
    fix c assume "c \<in> set (normalize_key k)"
    then have "c \<in> set ''_pct'' \<or> (\<exists>d. c = lower_char d)"
      using normalize_key_chars by blast
    then show "lower_char c = c"
      using lower_char_fixed lower_char_idem by auto
  qed
qed

lemma normalize_key_Nil_iff: "normalize_key k = [] \<longleftrightarrow> before_paren (strip k) = []"
  by (cases "before_paren (strip k)")
     (auto simp: normalize_key_def lower_def replace_space_def replace_pct_def)

lemma hd_normalize_key:
  assumes "normalize_key k \<noteq> []"
  shows "\<not> py_isspace (hd (normalize_key k))"
proof -
  let ?p = "before_paren (strip k)"
  from assms obtain c cs where p: "?p = c # cs"
    by (cases ?p) (auto simp: normalize_key_Nil_iff)
  then have "strip k \<noteq> []" by auto
  moreover have "hd (strip k) = c"
    using hd_before_paren [of "strip k"] p by simp
  ultimately have c: "\<not> py_isspace c"
    using strip_hd by blast
  then have "c \<noteq> CHR '' ''" using space_is_space by auto
  then have "hd (normalize_key k) = (if c = CHR ''%'' then CHR ''_'' else lower_char c)"
    by (simp add: normalize_key_def p lower_def replace_space_def replace_pct_def
        lower_char_eq_space lower_char_eq_pct)
  then show ?thesis
    using c by (simp add: py_isspace_lower_char) (simp add: py_isspace_def)
qed

section \<open>Key normalisation applied twice\<close>

text \<open>
  Claim C8, as the specification states it: normalising a key twice gives the same as
  normalising it once, for every raw key.  The key made of the letter \<open>a\<close>, a tab, a space
  and \<open>(b\<close> is cut before the space, which leaves the tab at the end; the second
  normalisation trims it.
\<close>

theorem C8_counterexample:
  "normalize_key (normalize_key (CHR ''a'' # CHR 0x09 # '' (b''))
     \<noteq> normalize_key (CHR ''a'' # CHR 0x09 # '' (b'')"
  by code_simp

text \<open>
  Claim C8, amended: normalising a key twice gives the same as normalising it once exactly
  when the normalised key does not end in a whitespace character; this is so for every
  raw key whose only whitespace characters are spaces.
\<close>

theorem C8_normalize_idempotent_unless_trailing_whitespace:
  "(normalize_key (normalize_key k) = normalize_key k
      \<longleftrightarrow> normalize_key k = [] \<or> \<not> py_isspace (last (normalize_key k)))
   \<and> ((\<forall>c\<in>set k. py_isspace c \<longrightarrow> c = CHR '' '')
      \<longrightarrow> normalize_key (normalize_key k) = normalize_key k)"
proof
  show iff: "normalize_key (normalize_key k) = normalize_key k
      \<longleftrightarrow> normalize_key k = [] \<or> \<not> py_isspace (last (normalize_key k))"
    unfolding normalize_key_twice strip_eq_self_iff using hd_normalize_key by blast
  show "(\<forall>c\<in>set k. py_isspace c \<longrightarrow> c = CHR '' '')
      \<longrightarrow> normalize_key (normalize_key k) = normalize_key k"
  proof
    assume only: "\<forall>c\<in>set k. py_isspace c \<longrightarrow> c = CHR '' ''"
    have "\<not> py_isspace c" if "c \<in> set (normalize_key k)" for c
    proof -
      from normalize_key_chars [OF that]
      consider "c \<in> set ''_pct''"
        | d where "c \<noteq> CHR '' ''" "d \<in> set k" "c = lower_char d"
        by blast
      then show ?thesis
      proof cases
        case 1 then show ?thesis by (auto simp: py_isspace_def)
      next
        case 2
        then have "d \<noteq> CHR '' ''" by (auto simp: lower_char_eq_space)
        with only 2 have "\<not> py_isspace d" by blast
        then show ?thesis using 2 by (simp add: py_isspace_lower_char)
      qed
    qed
    then have "normalize_key k = [] \<or> \<not> py_isspace (last (normalize_key k))"
      by (metis last_in_set)
    with iff show "normalize_key (normalize_key k) = normalize_key k" by blast
  qed
qed


text \<open>The amended claim C8 at the key \<open>DFS Used% (of total)\<close> with spaces around it.\<close>

theorem C8_witness:
  "normalize_key ''  DFS Used% (of total) '' = ''dfs_used_pct''
   \<and> normalize_key (normalize_key ''  DFS Used% (of total) '')
       = normalize_key ''  DFS Used% (of total) ''"
proof -
  have h: "\<forall>c\<in>set ''  DFS Used% (of total) ''. py_isspace c \<longrightarrow> c = CHR '' ''"
    by (simp add: py_isspace_def)
  have v: "normalize_key ''  DFS Used% (of total) '' = ''dfs_used_pct''"
    by code_simp
  from C8_normalize_idempotent_unless_trailing_whitespace [of "''  DFS Used% (of total) ''"] h
  have "normalize_key (normalize_key ''  DFS Used% (of total) '')
       = normalize_key ''  DFS Used% (of total) ''"
    by blast
  with v show ?thesis by blast
qed


section \<open>A scalar section is closed by its first blank line\<close>

text \<open>
  Claim C5, as the specification states it: on the four lines \<open>Name: \<close>, \<open>foo: bar\<close>, a blank
  line and \<open>baz: qux\<close>, the report holds the object with the single pair \<open>foo\<close>, \<open>bar\<close>
  under the key \<open>Name\<close>.  The parser normalises the header's key like any other, so the
  report has no key \<open>Name\<close>.
\<close>

theorem C5_counterexample:
  "lookup (interpret_dfsadmin_report ''Name: \<newline>foo: bar\<newline>\<newline>baz: qux'') ''Name''
     \<noteq> Some (Object [(''foo'', ''bar'')])"
  by code_simp

text \<open>
  Claim C5, amended: on that input the report holds the object with the single pair
  \<open>foo\<close>, \<open>bar\<close> under the normalised key \<open>name\<close>, and the leaf \<open>qux\<close> under \<open>baz\<close> at the top
  level, not nested under the section: the one blank line closed the scalar section.
\<close>

theorem C5_scalar_closed_by_one_blank:
  "interpret_dfsadmin_report ''Name: \<newline>foo: bar\<newline>\<newline>baz: qux''
     = Inr [(''name'', Object [(''foo'', ''bar'')]), (''baz'', Leaf ''qux'')]
   \<and> lookup (interpret_dfsadmin_report ''Name: \<newline>foo: bar\<newline>\<newline>baz: qux'') ''name''
     = Some (Object [(''foo'', ''bar'')])
   \<and> lookup (interpret_dfsadmin_report ''Name: \<newline>foo: bar\<newline>\<newline>baz: qux'') ''baz''
     = Some (Leaf ''qux'')"
  by code_simp

section \<open>A header that arrives while an array section is open\<close>

text \<open>
  Claim C3: a header that opens while an array section is open flushes the entry in
  progress as a blank line would, appending it to the list before the list is assigned.
  On the input below the entry \<open>y: 2\<close> is in progress when the header \<open>B:\<close> arrives: the
  parser assigns the list without it.  With a blank line before the header, and at the end
  of the text, the same entry is appended.
\<close>

theorem C3_header_drops_entry_in_progress:
  "interpret_dfsadmin_report ''A (2):\<newline>x: 1\<newline>\<newline>y: 2\<newline>B:''
     = Inr [(''a'', List [[(''x'', ''1'')]]), (''b'', Object [])]
   \<and> interpret_dfsadmin_report ''A (2):\<newline>x: 1\<newline>\<newline>y: 2\<newline>\<newline>B:''
     = Inr [(''a'', List [[(''x'', ''1'')], [(''y'', ''2'')]]), (''b'', Object [])]
   \<and> interpret_dfsadmin_report ''A (2):\<newline>x: 1\<newline>\<newline>y: 2''
     = Inr [(''a'', List [[(''x'', ''1'')], [(''y'', ''2'')]])]"
  by code_simp

section \<open>Facts about \<open>interpret_fsck_output\<close>\<close>

subsection \<open>Association lists\<close>


lemma report_keys_update:
  "set (report_keys (AList.update k v d)) \<subseteq> insert k (set (value_keys v)) \<union> set (report_keys d)"
  by (induction d) (auto simp: report_keys_def)

lemma map_of_value_keys:
  "map_of d sec = Some v \<Longrightarrow> set (value_keys v) \<subseteq> set (report_keys d)"
  by (induction d) (auto simp: report_keys_def split: if_splits)

lemma key_in_report_keys: "k \<in> set (report_keys (AList.update k v d))"
  by (induction d) (auto simp: report_keys_def)

lemma nested_key_in_report_keys:
  "k \<in> set (value_keys v) \<Longrightarrow> k \<in> set (report_keys (AList.update sec v d))"
  by (induction d) (auto simp: report_keys_def)

subsection \<open>The consistency parser never raises\<close>

lemma fsck_inv_obtain:
  assumes "fsck_inv (d, Some sec)"
  obtains ob where "map_of d sec = Some (Object ob)"
  using assms by (auto simp: fsck_inv_def split: option.splits Value.splits)

lemma fsck_step_header:
  assumes "CHR '':'' \<in> set line" "strip (value_part line) = []"
  shows "fsck_step (d, cs) line
           = Inr (AList.update (strip (key_part line)) (Object []) d, Some (strip (key_part line)))"
  using assms by (simp add: fsck_step_def Let_def)

lemma fsck_step_top:
  assumes "CHR '':'' \<in> set line" "strip (value_part line) \<noteq> []"
  shows "fsck_step (d, None) line
           = Inr (AList.update (strip (key_part line)) (Leaf (strip (value_part line))) d, None)"
  using assms by (simp add: fsck_step_def)

lemma fsck_step_nested:
  assumes "CHR '':'' \<in> set line" "strip (value_part line) \<noteq> []"
    and "map_of d sec = Some (Object ob)"
  shows "fsck_step (d, Some sec) line
           = Inr (AList.update sec
                    (Object (AList.update (strip (key_part line)) (strip (value_part line)) ob)) d,
                  Some sec)"
  using assms by (simp add: fsck_step_def)

lemma fsck_step_skip: "CHR '':'' \<notin> set line \<Longrightarrow> fsck_step st line = Inr st"
  by (simp add: fsck_step_def split: prod.splits)

lemma fsck_step_cases:
  assumes "fsck_inv (d, cs)"
  obtains
    (skip) "CHR '':'' \<notin> set line" "fsck_step (d, cs) line = Inr (d, cs)"
  | (header) "CHR '':'' \<in> set line" "strip (value_part line) = []"
      "fsck_step (d, cs) line
         = Inr (AList.update (strip (key_part line)) (Object []) d, Some (strip (key_part line)))"
  | (top) "CHR '':'' \<in> set line" "strip (value_part line) \<noteq> []" "cs = None"
      "fsck_step (d, cs) line
         = Inr (AList.update (strip (key_part line)) (Leaf (strip (value_part line))) d, None)"
  | (nested) sec ob where "CHR '':'' \<in> set line" "strip (value_part line) \<noteq> []"
      "cs = Some sec" "map_of d sec = Some (Object ob)"
      "fsck_step (d, cs) line
         = Inr (AList.update sec
                  (Object (AList.update (strip (key_part line)) (strip (value_part line)) ob)) d,
                Some sec)"
proof (cases "CHR '':'' \<in> set line")
  case False
  then show ?thesis using skip fsck_step_skip by blast
next
  case colon: True
  show ?thesis
  proof (cases "strip (value_part line) = []")
    case True
    then show ?thesis using header colon fsck_step_header by blast
  next
    case val: False
    show ?thesis
    proof (cases cs)
      case None
      then show ?thesis using top colon val fsck_step_top by blast
    next
      case (Some sec)
      with assms obtain ob where "map_of d sec = Some (Object ob)"
        using fsck_inv_obtain by blast
      then show ?thesis using nested colon val Some fsck_step_nested by blast
    qed
  qed
qed

lemma fsck_step_inv_pair:
  assumes "fsck_inv (d, cs)"
  shows "\<exists>st'. fsck_step (d, cs) line = Inr st' \<and> fsck_inv st'"
  using assms
proof (cases rule: fsck_step_cases [where line = line])
  case skip
  then show ?thesis using assms by simp
next
  case header
  then show ?thesis by (simp add: fsck_inv_def update_conv')
next
  case top
  then show ?thesis by (simp add: fsck_inv_def)
next
  case (nested sec ob)
  then show ?thesis by (simp add: fsck_inv_def update_conv')
qed

lemma fsck_step_inv:
  assumes "fsck_inv st"
  shows "\<exists>st'. fsck_step st line = Inr st' \<and> fsck_inv st'"
  using assms fsck_step_inv_pair [of "fst st" "snd st" line] by simp

lemma fsck_loop_append:
  "fsck_loop st (xs @ ys)
     = (case fsck_loop st xs of Inl e \<Rightarrow> Inl e | Inr st' \<Rightarrow> fsck_loop st' ys)"
  by (induction xs arbitrary: st) (auto split: sum.splits)

lemma fsck_loop_inv:
  "fsck_inv st \<Longrightarrow> \<exists>st'. fsck_loop st ls = Inr st' \<and> fsck_inv st'"
proof (induction ls arbitrary: st)
  case Nil
  then show ?case by simp
next
  case (Cons l ls)
  from fsck_step_inv [OF Cons.prems] obtain st1
    where "fsck_step st l = Inr st1" "fsck_inv st1" by blast
  with Cons.IH [of st1] show ?case by simp
qed

lemma fsck_init_inv: "fsck_inv ([], None)"
  by (simp add: fsck_inv_def)

subsection \<open>Keys of the consistency report\<close>

lemma fsck_step_keys_pair:
  assumes "fsck_inv (d, cs)" "fsck_step (d, cs) line = Inr st'"
  shows "set (report_keys (fst st'))
           \<subseteq> set (report_keys d) \<union> (if CHR '':'' \<in> set line then {strip (key_part line)} else {})"
  using assms(1)
proof (cases rule: fsck_step_cases [where line = line])
  case skip
  with assms(2) show ?thesis by auto
next
  case header
  with assms(2) show ?thesis
    using report_keys_update [of "strip (key_part line)" "Object []" d] by auto
next
  case top
  with assms(2) show ?thesis
    using report_keys_update [of "strip (key_part line)" "Leaf (strip (value_part line))" d]
    by auto
next
  case (nested sec ob)
  let ?ob = "AList.update (strip (key_part line)) (strip (value_part line)) ob"
  have "set (value_keys (Object ?ob)) \<subseteq> insert (strip (key_part line)) (set (value_keys (Object ob)))"
    by (auto simp: dom_update)
  moreover have "set (value_keys (Object ob)) \<subseteq> set (report_keys d)"
    using nested(4) by (rule map_of_value_keys)
  moreover have "sec \<in> set (report_keys d)"
    using map_of_SomeD [OF nested(4)] by (force simp: report_keys_def)
  moreover have "fst st' = AList.update sec (Object ?ob) d"
    using nested(5) assms(2) by auto
  then have "set (report_keys (fst st'))
      \<subseteq> insert sec (set (value_keys (Object ?ob))) \<union> set (report_keys d)"
    using report_keys_update [of sec "Object ?ob" d] by simp
  ultimately have "set (report_keys (fst st'))
      \<subseteq> set (report_keys d) \<union> {strip (key_part line)}"
    by blast
  then show ?thesis using nested(1) by simp
qed

lemma fsck_step_keys:
  assumes "fsck_inv st" "fsck_step st line = Inr st'"
  shows "set (report_keys (fst st'))
           \<subseteq> set (report_keys (fst st)) \<union> (if CHR '':'' \<in> set line then {strip (key_part line)} else {})"
  using assms fsck_step_keys_pair [of "fst st" "snd st" line st'] by simp

lemma fsck_step_key_stored_pair:
  assumes "fsck_inv (d, cs)" "fsck_step (d, cs) line = Inr st'" "CHR '':'' \<in> set line"
  shows "strip (key_part line) \<in> set (report_keys (fst st'))"
  using assms(1)
proof (cases rule: fsck_step_cases [where line = line])
  case skip
  then show ?thesis using assms(3) by simp
next
  case header
  with assms(2) have "fst st' = AList.update (strip (key_part line)) (Object []) d" by auto
  then show ?thesis by (simp add: key_in_report_keys)
next
  case top
  with assms(2)
  have "fst st' = AList.update (strip (key_part line)) (Leaf (strip (value_part line))) d"
    by auto
  then show ?thesis by (simp add: key_in_report_keys)
next
  case (nested sec ob)
  with assms(2) have "fst st' = AList.update sec
        (Object (AList.update (strip (key_part line)) (strip (value_part line)) ob)) d"
    by auto
  then show ?thesis
    by (simp add: nested_key_in_report_keys dom_update)
qed

lemma fsck_step_key_stored:
  assumes "fsck_inv st" "fsck_step st line = Inr st'" "CHR '':'' \<in> set line"
  shows "strip (key_part line) \<in> set (report_keys (fst st'))"
  using assms fsck_step_key_stored_pair [of "fst st" "snd st" line st'] by simp

lemma fsck_loop_keys:
  assumes "fsck_inv st" "fsck_loop st ls = Inr st'"
  shows "set (report_keys (fst st'))
           \<subseteq> set (report_keys (fst st))
               \<union> (\<lambda>l. strip (key_part l)) ` {l \<in> set ls. CHR '':'' \<in> set l}"
  using assms
proof (induction ls arbitrary: st)
  case Nil
  then show ?case by simp
next
  case (Cons l ls)
  from fsck_step_inv [OF Cons.prems(1)] obtain st1
    where 1: "fsck_step st l = Inr st1" "fsck_inv st1" by blast
  with Cons.prems(2) have 2: "fsck_loop st1 ls = Inr st'" by simp
  from Cons.IH [OF 1(2) 2] fsck_step_keys [OF Cons.prems(1) 1(1)]
  show ?case by (auto split: if_splits)
qed


subsection \<open>Texts of one line\<close>




lemma strip_append_space:
  assumes "\<forall>c\<in>set w. py_isspace c"
  shows "strip (x @ w) = strip x"
proof (cases "\<forall>c\<in>set x. py_isspace c")
  case True
  with assms have "\<forall>c\<in>set (x @ w). py_isspace c" by auto
  then have "strip (x @ w) = []" by (simp only: strip_eq_Nil_iff)
  moreover from True have "strip x = []" by (simp only: strip_eq_Nil_iff)
  ultimately show ?thesis by simp
next
  case False
  then have 1: "dropWhile py_isspace (x @ w) = dropWhile py_isspace x @ w"
    by (auto simp: dropWhile_append)
  have 2: "dropWhile py_isspace (rev w @ rev (dropWhile py_isspace x))
        = dropWhile py_isspace (rev (dropWhile py_isspace x))"
    using assms by (intro dropWhile_append2) simp
  show ?thesis by (simp add: strip_def 1 2)
qed

lemma colon_not_space: "\<not> py_isspace (CHR '':'')"
  by (simp add: py_isspace_def)

lemma colon_in_strip: "CHR '':'' \<in> set (strip line) \<longleftrightarrow> CHR '':'' \<in> set line"
proof
  assume "CHR '':'' \<in> set (strip line)"
  then show "CHR '':'' \<in> set line" using set_strip by blast
next
  assume a: "CHR '':'' \<in> set line"
  have l: "line = takeWhile py_isspace line @ dropWhile py_isspace line" by simp
  have "CHR '':'' \<notin> set (takeWhile py_isspace line)"
    using colon_not_space by (metis set_takeWhileD)
  moreover have "CHR '':'' \<notin> set (rev (takeWhile py_isspace (rev (dropWhile py_isspace line))))"
    using colon_not_space by (metis set_takeWhileD set_rev)
  moreover have "set line = set (takeWhile py_isspace line) \<union> set (strip line)
      \<union> set (rev (takeWhile py_isspace (rev (dropWhile py_isspace line))))"
    using strip_decomp [of line] l by (metis set_append sup_assoc)
  ultimately show "CHR '':'' \<in> set (strip line)" using a by blast
qed

lemma value_part_strip:
  assumes "CHR '':'' \<in> set line"
  shows "strip (value_part (strip line)) = strip (value_part line)"
proof -
  let ?a = "takeWhile py_isspace line"
  let ?z = "rev (takeWhile py_isspace (rev (dropWhile py_isspace line)))"
  have line: "line = ?a @ strip line @ ?z"
    using strip_decomp [of line] by (metis takeWhile_dropWhile_id)
  have a: "\<forall>c\<in>set ?a. c \<noteq> CHR '':''"
    using colon_not_space by (metis set_takeWhileD)
  have z: "\<forall>c\<in>set ?z. py_isspace c"
    by (metis set_takeWhileD set_rev)
  have m: "CHR '':'' \<in> set (strip line)"
    using assms by (simp add: colon_in_strip)
  then have ne: "dropWhile (\<lambda>c. c \<noteq> CHR '':'') (strip line) \<noteq> []"
    by auto
  have "dropWhile (\<lambda>c. c \<noteq> CHR '':'') (?a @ strip line @ ?z)
      = dropWhile (\<lambda>c. c \<noteq> CHR '':'') (strip line) @ ?z"
    using a m by (auto simp: dropWhile_append)
  then have "value_part (?a @ strip line @ ?z) = value_part (strip line) @ ?z"
    using ne by (simp add: value_part_def)
  then have "value_part line = value_part (strip line) @ ?z"
    using line by simp
  then show ?thesis using z by (simp add: strip_append_space)
qed


lemma dfs_step_pair:
  assumes "CHR '':'' \<in> set line" "strip (value_part line) \<noteq> []"
  shows "dfs_step s line
           = store_pair s (normalize_key (key_part (strip line)))
               (before_paren (strip (value_part line)))"
proof -
  have "before_paren (strip (value_part line)) \<noteq> []"
    using assms(2) by (simp add: before_paren_strip_Nil)
  then show ?thesis
    using assms(1) by (simp add: dfs_step_def Let_def colon_in_strip value_part_strip)
qed



subsection \<open>What a section holds after its header\<close>




section \<open>Parenthetical suffixes of values\<close>





section \<open>Keys of the consistency report\<close>

text \<open>
  Claim C7, as the specification states it: \<open>interpret_fsck_output\<close> uses as key the text
  left of the first colon unchanged, without trimming.  The key of a line that begins
  with a space is stored without that space.
\<close>

theorem C7_counterexample:
  "lookup (interpret_fsck_output '' Total size: 10 B'') '' Total size'' = None
   \<and> lookup (interpret_fsck_output '' Total size: 10 B'') ''Total size'' = Some (Leaf ''10 B'')"
  by code_simp

text \<open>
  Claim C7, amended: \<open>interpret_fsck_output\<close> uses as key the text left of the first colon
  with the whitespace at its two ends trimmed, and otherwise unchanged (no lowercasing, no
  rewriting of separators or parentheticals).  It never raises; every key of the report it
  returns, at the top level or inside a section, is the trimmed text left of the first
  colon of a line of the input; and once a line with a colon has been read, its trimmed
  key is a key of the dictionary.
\<close>

theorem C7_consistency_keys_are_trimmed_raw_keys:
  assumes "splitlines text = pre @ l # post" "CHR '':'' \<in> set l"
  shows "\<exists>r st. interpret_fsck_output text = Inr r
           \<and> set (report_keys r)
               \<subseteq> (\<lambda>l. strip (key_part l)) ` {l \<in> set (splitlines text). CHR '':'' \<in> set l}
           \<and> fsck_loop ([], None) (pre @ [l]) = Inr st
           \<and> strip (key_part l) \<in> set (report_keys (fst st))"
proof -
  obtain st1 where 1: "fsck_loop ([], None) pre = Inr st1" "fsck_inv st1"
    using fsck_loop_inv [OF fsck_init_inv] by blast
  obtain st2 where 2: "fsck_step st1 l = Inr st2" "fsck_inv st2"
    using fsck_step_inv [OF 1(2)] by blast
  obtain st3 where 3: "fsck_loop st2 post = Inr st3"
    using fsck_loop_inv [OF 2(2)] by blast
  have all: "fsck_loop ([], None) (splitlines text) = Inr st3"
    using 1 2 3 by (simp add: assms(1) fsck_loop_append)
  have "set (report_keys (fst st3))
      \<subseteq> (\<lambda>l. strip (key_part l)) ` {l \<in> set (splitlines text). CHR '':'' \<in> set l}"
    using fsck_loop_keys [OF fsck_init_inv all] by (simp add: report_keys_def)
  moreover have "interpret_fsck_output text = Inr (fst st3)"
    using all by (simp add: interpret_fsck_output_def)
  moreover have "fsck_loop ([], None) (pre @ [l]) = Inr st2"
    using 1 2 by (simp add: fsck_loop_append)
  moreover have "strip (key_part l) \<in> set (report_keys (fst st2))"
    using fsck_step_key_stored [OF 1(2) 2(1) assms(2)] .
  ultimately show ?thesis by blast
qed


text \<open>The amended claim C7 on a text of three lines, at its second line.\<close>

theorem C7_witness:
  "\<exists>r st. interpret_fsck_output ''Status: HEALTHY\<newline> Total size:\<newline>  Total Dirs (est): 4''
             = Inr r
     \<and> set (report_keys r)
           \<subseteq> (\<lambda>l. strip (key_part l))
               ` {l \<in> set (splitlines ''Status: HEALTHY\<newline> Total size:\<newline>  Total Dirs (est): 4'').
                   CHR '':'' \<in> set l}
     \<and> fsck_loop ([], None) ([''Status: HEALTHY''] @ ['' Total size:'']) = Inr st
     \<and> strip (key_part '' Total size:'') \<in> set (report_keys (fst st))"
  by (rule C7_consistency_keys_are_trimmed_raw_keys [where post = "[''  Total Dirs (est): 4'']"])
    code_simp+

section \<open>A section header that occurs again\<close>




section \<open>Facts about \<open>interpret_dfsadmin_report\<close>\<close>

subsection \<open>The four kinds of line\<close>

lemma value_blank_iff:
  assumes "CHR '':'' \<in> set raw"
  shows "before_paren (strip (value_part (strip raw))) = [] \<longleftrightarrow> strip (value_part raw) = []"
  using assms by (simp add: before_paren_strip_Nil value_part_strip)

lemma dfs_step_header:
  assumes "CHR '':'' \<in> set raw" "strip (value_part raw) = []"
  shows "dfs_step s raw = open_section s (strip raw) (normalize_key (key_part (strip raw)))"
  using assms by (simp add: dfs_step_def Let_def colon_in_strip value_blank_iff)

lemma dfs_step_blank: "strip raw = [] \<Longrightarrow> dfs_step s raw = Inr (close_entry s)"
  by (simp add: dfs_step_def)

lemma dfs_step_skip:
  "CHR '':'' \<notin> set raw \<Longrightarrow> strip raw \<noteq> [] \<Longrightarrow> dfs_step s raw = Inr s"
  by (simp add: dfs_step_def colon_in_strip)

lemma dfs_loop_append:
  "dfs_loop s (xs @ ys)
     = (case dfs_loop s xs of Inl e \<Rightarrow> Inl e | Inr s' \<Rightarrow> dfs_loop s' ys)"
  by (induction xs arbitrary: s) (auto split: sum.splits)

subsection \<open>Headers\<close>

lemma line_split:
  assumes "CHR '':'' \<in> set line"
  shows "key_part line @ CHR '':'' # value_part line = line"
proof -
  let ?P = "\<lambda>c. c \<noteq> CHR '':''"
  from assms obtain c cs where d: "dropWhile ?P line = c # cs"
    by (cases "dropWhile ?P line") auto
  have "\<not> ?P (hd (dropWhile ?P line))"
    by (rule hd_dropWhile) (simp only: d, simp)
  then have c: "c = CHR '':''" by (simp only: d list.sel) simp
  have "takeWhile ?P line @ dropWhile ?P line = line"
    by (rule takeWhile_dropWhile_id)
  then have "takeWhile ?P line @ c # cs = line"
    by (simp only: d)
  then show ?thesis
    by (simp only: key_part_def value_part_def d list.sel c)
qed

lemma set_line_split:
  assumes "CHR '':'' \<in> set line"
  shows "set line = set (key_part line) \<union> insert (CHR '':'') (set (value_part line))"
proof -
  have "set (key_part line @ CHR '':'' # value_part line) = set line"
    by (rule arg_cong [where f = set]) (rule line_split [OF assms])
  then show ?thesis by (simp only: set_append list.set)
qed

lemma paren_not_space: "\<not> py_isspace (CHR ''('')"
  by (simp add: py_isspace_def)

lemma header_paren_in_key:
  assumes "CHR '':'' \<in> set raw" "strip (value_part raw) = []"
  shows "CHR ''('' \<in> set (strip raw) \<longleftrightarrow> CHR ''('' \<in> set (key_part (strip raw))"
proof -
  have c: "CHR '':'' \<in> set (strip raw)" using assms(1) by (simp add: colon_in_strip)
  have "strip (value_part (strip raw)) = []"
    using assms by (simp add: value_part_strip)
  then have "\<forall>c\<in>set (value_part (strip raw)). py_isspace c"
    by (simp only: strip_eq_Nil_iff)
  then have "CHR ''('' \<notin> set (value_part (strip raw))"
    using paren_not_space by blast
  moreover note set_line_split [OF c]
  ultimately show ?thesis by (simp only: Un_iff insert_iff) simp
qed

lemma normalize_key_nonempty:
  assumes "CHR ''('' \<in> set k"
  shows "normalize_key k \<noteq> []"
proof
  assume "normalize_key k = []"
  then have "strip k = []"
    by (simp add: normalize_key_Nil_iff before_paren_strip_Nil)
  then have "\<forall>c\<in>set k. py_isspace c" by (simp only: strip_eq_Nil_iff)
  with assms show False using paren_not_space by blast
qed

lemma open_section_plain:
  assumes "CHR '':'' \<in> set raw" "strip (value_part raw) = []"
    and "CHR ''('' \<notin> set (key_part (strip raw))"
  shows "dfs_step s raw
           = Inr \<lparr>dfsadmin_dict = flush_on_header s,
                  current_section = Some (normalize_key (key_part (strip raw))),
                  current_object_list = [], current_object = [], objects_remaining = 1,
                  in_object_section = True, is_array = False\<rparr>"
  using assms header_paren_in_key [OF assms(1,2)]
  by (simp add: dfs_step_header open_section_def header_count_def)

lemma open_section_counted:
  assumes "CHR '':'' \<in> set raw" "strip (value_part raw) = []"
    and "CHR ''('' \<in> set (key_part (strip raw))" "py_int (count_text (strip raw)) = Some n"
  shows "dfs_step s raw
           = Inr \<lparr>dfsadmin_dict = flush_on_header s,
                  current_section = Some (normalize_key (key_part (strip raw))),
                  current_object_list = [], current_object = [], objects_remaining = n,
                  in_object_section = (0 < n), is_array = True\<rparr>"
  using assms header_paren_in_key [OF assms(1,2)]
  by (simp add: dfs_step_header open_section_def header_count_def)

lemma open_section_malformed:
  assumes "CHR '':'' \<in> set raw" "strip (value_part raw) = []"
    and "CHR ''('' \<in> set (key_part (strip raw))" "py_int (count_text (strip raw)) = None"
  shows "dfs_step s raw = Inl (ValueError (count_text (strip raw)))"
  using assms by (simp add: dfs_step_header open_section_def header_count_def)

subsection \<open>Storing a pair\<close>

lemma store_pair_entry:
  assumes "in_object_section s" "0 < objects_remaining s"
  shows "store_pair s k v = Inr (s\<lparr>current_object := AList.update k v (current_object s)\<rparr>)"
  using assms by (simp add: store_pair_def)

lemma store_pair_top:
  assumes "\<not> (in_object_section s \<and> 0 < objects_remaining s)"
    and "current_section s = None \<or> current_section s = Some []"
  shows "store_pair s k v
           = Inr (s\<lparr>dfsadmin_dict := AList.update k (Leaf v) (dfsadmin_dict s)\<rparr>)"
  using assms by (auto simp: store_pair_def)

lemma store_pair_fresh:
  assumes "\<not> (in_object_section s \<and> 0 < objects_remaining s)"
    and "current_section s = Some sec" "sec \<noteq> []" "map_of (dfsadmin_dict s) sec = None"
  shows "store_pair s k v
           = Inr (s\<lparr>dfsadmin_dict := AList.update sec (Object [(k, v)]) (dfsadmin_dict s)\<rparr>)"
  using assms by (auto simp: store_pair_def Let_def update_conv')

lemma store_pair_object:
  assumes "\<not> (in_object_section s \<and> 0 < objects_remaining s)"
    and "current_section s = Some sec" "sec \<noteq> []"
    and "map_of (dfsadmin_dict s) sec = Some (Object ob)"
  shows "store_pair s k v
           = Inr (s\<lparr>dfsadmin_dict :=
                      AList.update sec (Object (AList.update k v ob)) (dfsadmin_dict s)\<rparr>)"
  using assms by (auto simp: store_pair_def Let_def)


subsection \<open>Closing an entry\<close>

lemma close_entry_append:
  assumes "is_array s" "in_object_section s" "current_section s = Some sec"
    "current_object s \<noteq> []"
  shows "close_entry s
           = s\<lparr>current_object_list := current_object_list s @ [current_object s],
               objects_remaining := objects_remaining s - 1,
               current_object := []\<rparr>"
  using assms by (simp add: close_entry_def)

lemma close_entry_idle:
  assumes "is_array s" "current_object s = []"
  shows "close_entry s = s"
  using assms by (auto simp: close_entry_def split: option.splits)

subsection \<open>Lines that leave a section of the dictionary alone\<close>

lemma flush_on_header_other:
  "current_section s \<noteq> Some sec \<Longrightarrow> map_of (flush_on_header s) sec = map_of (dfsadmin_dict s) sec"
  by (auto simp: flush_on_header_def update_conv' split: option.splits)

lemma dfs_finish_other:
  "current_section s \<noteq> Some sec \<Longrightarrow> map_of (dfs_finish s) sec = map_of (dfsadmin_dict s) sec"
  by (auto simp: dfs_finish_def update_conv' split: option.splits)

lemma open_section_Inr:
  assumes "open_section s line key = Inr s'"
  shows "dfsadmin_dict s' = flush_on_header s \<and> current_section s' = Some key"
  using assms by (auto simp: open_section_def split: sum.splits)

lemma store_pair_other:
  assumes "store_pair s k v = Inr s'" "current_section s \<noteq> Some sec" "k \<noteq> sec"
  shows "map_of (dfsadmin_dict s') sec = map_of (dfsadmin_dict s) sec
       \<and> current_section s' = current_section s"
  using assms
  by (auto simp: store_pair_def Let_def update_conv'
      split: if_splits option.splits Value.splits)

lemma close_entry_other:
  assumes "current_section s \<noteq> Some sec"
  shows "map_of (dfsadmin_dict (close_entry s)) sec = map_of (dfsadmin_dict s) sec
       \<and> current_section (close_entry s) \<noteq> Some sec"
  using assms by (auto simp: close_entry_def update_conv' split: option.splits)

lemma dfs_step_other:
  assumes "dfs_step s l = Inr s'" "current_section s \<noteq> Some sec"
    and "CHR '':'' \<in> set l \<longrightarrow> normalize_key (key_part (strip l)) \<noteq> sec"
  shows "map_of (dfsadmin_dict s') sec = map_of (dfsadmin_dict s) sec
       \<and> current_section s' \<noteq> Some sec"
proof (cases "CHR '':'' \<in> set l")
  case colon: True
  with assms(3) have key: "normalize_key (key_part (strip l)) \<noteq> sec" by simp
  show ?thesis
  proof (cases "strip (value_part l) = []")
    case True
    then have "open_section s (strip l) (normalize_key (key_part (strip l))) = Inr s'"
      using assms(1) colon by (simp add: dfs_step_header)
    from open_section_Inr [OF this] show ?thesis
      using key assms(2) by (simp add: flush_on_header_other)
  next
    case False
    then have "store_pair s (normalize_key (key_part (strip l)))
        (before_paren (strip (value_part l))) = Inr s'"
      using assms(1) colon by (simp add: dfs_step_pair)
    from store_pair_other [OF this assms(2) key] show ?thesis
      using assms(2) by simp
  qed
next
  case False
  show ?thesis
  proof (cases "strip l = []")
    case True
    then have "s' = close_entry s" using assms(1) by (simp add: dfs_step_blank)
    then show ?thesis using close_entry_other [OF assms(2)] by simp
  next
    case nb: False
    then have "s' = s" using assms(1) False by (simp add: dfs_step_skip)
    then show ?thesis using assms(2) by simp
  qed
qed

lemma dfs_loop_other:
  assumes "dfs_loop s ls = Inr s'" "current_section s \<noteq> Some sec"
    and "\<forall>l\<in>set ls. CHR '':'' \<in> set l \<longrightarrow> normalize_key (key_part (strip l)) \<noteq> sec"
  shows "map_of (dfsadmin_dict s') sec = map_of (dfsadmin_dict s) sec
       \<and> current_section s' \<noteq> Some sec"
  using assms
proof (induction ls arbitrary: s)
  case Nil
  then show ?case by simp
next
  case (Cons l ls)
  from Cons.prems(1) obtain s1 where 1: "dfs_step s l = Inr s1" "dfs_loop s1 ls = Inr s'"
    by (auto split: sum.splits)
  have 2: "map_of (dfsadmin_dict s1) sec = map_of (dfsadmin_dict s) sec
       \<and> current_section s1 \<noteq> Some sec"
    using dfs_step_other [OF 1(1) Cons.prems(2)] Cons.prems(3) by simp
  have "map_of (dfsadmin_dict s') sec = map_of (dfsadmin_dict s1) sec
       \<and> current_section s' \<noteq> Some sec"
    using Cons.IH [OF 1(2)] 2 Cons.prems(3) by simp
  with 2 show ?case by simp
qed


subsection \<open>A section whose count is zero\<close>





subsection \<open>Counting entries\<close>

lemma entry_count_snoc:
  "entry_count (xs @ [l])
     = entry_count xs + (if strip l \<noteq> [] \<and> (xs = [] \<or> strip (last xs) = []) then 1 else 0)"
  by (induction xs rule: entry_count.induct) auto

subsection \<open>The lines of an array section\<close>

lemma array_section_step:
  assumes sec: "current_section s = Some sec" "is_array s" "in_object_section s = (0 < n)"
    and rem: "objects_remaining s = int n - int (length (current_object_list s))"
    and cnt: "length (current_object_list s) + (if current_object s = [] then 0 else 1)
                = entry_count xs"
    and cur: "current_object s \<noteq> [] \<longleftrightarrow> xs \<noteq> [] \<and> strip (last xs) \<noteq> []"
    and line: "strip l = [] \<or> (CHR '':'' \<in> set l \<and> strip (value_part l) \<noteq> [])"
    and bound: "entry_count (xs @ [l]) \<le> n"
  shows "\<exists>s'. dfs_step s l = Inr s'
           \<and> current_section s' = Some sec \<and> is_array s' \<and> in_object_section s' = (0 < n)
           \<and> dfsadmin_dict s' = dfsadmin_dict s
           \<and> objects_remaining s' = int n - int (length (current_object_list s'))
           \<and> length (current_object_list s') + (if current_object s' = [] then 0 else 1)
                = entry_count (xs @ [l])
           \<and> (current_object s' \<noteq> [] \<longleftrightarrow> strip l \<noteq> [])"
proof (cases "strip l = []")
  case blank: True
  then have step: "dfs_step s l = Inr (close_entry s)" by (simp add: dfs_step_blank)
  have ec: "entry_count (xs @ [l]) = entry_count xs"
    using blank by (simp add: entry_count_snoc)
  show ?thesis
  proof (cases "current_object s = []")
    case True
    then have "close_entry s = s" using sec(2) by (simp add: close_entry_idle)
    then show ?thesis using step sec rem cnt True blank ec by simp
  next
    case False
    with cnt bound ec have "0 < n" by simp
    then have "in_object_section s" using sec(3) by simp
    from close_entry_append [OF sec(2) this sec(1) False]
    show ?thesis using step sec rem cnt False blank ec by simp
  qed
next
  case nb: False
  with line have colon: "CHR '':'' \<in> set l" and v: "strip (value_part l) \<noteq> []" by simp_all
  let ?k = "normalize_key (key_part (strip l))"
  let ?v = "before_paren (strip (value_part l))"
  have step: "dfs_step s l = store_pair s ?k ?v"
    using colon v by (rule dfs_step_pair)
  have lt: "length (current_object_list s) < n"
  proof (cases "current_object s = []")
    case True
    with cur have "xs = [] \<or> strip (last xs) = []" by blast
    then have "entry_count (xs @ [l]) = entry_count xs + 1"
      using nb by (simp add: entry_count_snoc)
    with cnt True bound show ?thesis by simp
  next
    case False
    have "entry_count xs \<le> entry_count (xs @ [l])" by (simp add: entry_count_snoc)
    with cnt False bound show ?thesis by simp
  qed
  then have in_entry: "in_object_section s" "0 < objects_remaining s"
    using sec(3) rem by simp_all
  have ec: "entry_count (xs @ [l]) = length (current_object_list s) + 1"
  proof (cases "current_object s = []")
    case True
    with cur have "xs = [] \<or> strip (last xs) = []" by blast
    then have "entry_count (xs @ [l]) = entry_count xs + 1"
      using nb by (simp add: entry_count_snoc)
    with cnt True show ?thesis by simp
  next
    case False
    with cur have "xs \<noteq> [] \<and> strip (last xs) \<noteq> []" by blast
    then have "entry_count (xs @ [l]) = entry_count xs"
      by (simp add: entry_count_snoc)
    with cnt False show ?thesis by simp
  qed
  show ?thesis
    using step store_pair_entry [OF in_entry, of ?k ?v] sec rem nb ec by simp
qed

lemma array_section_loop:
  assumes "current_section s0 = Some sec" "is_array s0" "in_object_section s0 = (0 < n)"
    and "objects_remaining s0 = int n"
    and "current_object_list s0 = []" "current_object s0 = []"
    and "\<forall>l\<in>set body. strip l = [] \<or> (CHR '':'' \<in> set l \<and> strip (value_part l) \<noteq> [])"
    and "entry_count body \<le> n"
  shows "\<exists>s'. dfs_loop s0 body = Inr s'
           \<and> current_section s' = Some sec \<and> is_array s' \<and> in_object_section s' = (0 < n)
           \<and> dfsadmin_dict s' = dfsadmin_dict s0
           \<and> objects_remaining s' = int n - int (length (current_object_list s'))
           \<and> length (current_object_list s') + (if current_object s' = [] then 0 else 1)
                = entry_count body
           \<and> (current_object s' \<noteq> [] \<longleftrightarrow> body \<noteq> [] \<and> strip (last body) \<noteq> [])"
  using assms(7,8)
proof (induction body rule: rev_induct)
  case Nil
  then show ?case using assms(1-6) by simp
next
  case (snoc l xs)
  have "entry_count xs \<le> entry_count (xs @ [l])" by (simp add: entry_count_snoc)
  with snoc.prems(2) have b: "entry_count xs \<le> n" by simp
  have "\<forall>l\<in>set xs. strip l = [] \<or> (CHR '':'' \<in> set l \<and> strip (value_part l) \<noteq> [])"
    using snoc.prems(1) by simp
  from snoc.IH [OF this b] obtain s1 where s1: "dfs_loop s0 xs = Inr s1"
    "current_section s1 = Some sec" "is_array s1" "in_object_section s1 = (0 < n)"
    "dfsadmin_dict s1 = dfsadmin_dict s0"
    "objects_remaining s1 = int n - int (length (current_object_list s1))"
    "length (current_object_list s1) + (if current_object s1 = [] then 0 else 1) = entry_count xs"
    "current_object s1 \<noteq> [] \<longleftrightarrow> xs \<noteq> [] \<and> strip (last xs) \<noteq> []"
    by blast
  have l: "strip l = [] \<or> (CHR '':'' \<in> set l \<and> strip (value_part l) \<noteq> [])"
    using snoc.prems(1) by simp
  from array_section_step [OF s1(2,3,4,6,7,8) l snoc.prems(2)]
  obtain s' where s': "dfs_step s1 l = Inr s'"
    "current_section s' = Some sec" "is_array s'" "in_object_section s' = (0 < n)"
    "dfsadmin_dict s' = dfsadmin_dict s1"
    "objects_remaining s' = int n - int (length (current_object_list s'))"
    "length (current_object_list s') + (if current_object s' = [] then 0 else 1)
       = entry_count (xs @ [l])"
    "current_object s' \<noteq> [] \<longleftrightarrow> strip l \<noteq> []"
    by blast
  have "dfs_loop s0 (xs @ [l]) = Inr s'"
    using s1(1) s'(1) by (simp add: dfs_loop_append)
  then show ?case using s' s1(5) by simp
qed

section \<open>Headers whose count is not a number\<close>

text \<open>
  Claim C4, as the specification states it: a header whose parenthetical holds no valid
  non-negative integer makes the parser return an error that carries the raw text of the
  line and its line number, counted from one.  The \<open>ValueError\<close> of \<open>int\<close> carries the text
  between the last opening parenthesis and the next closing one, and nothing else: it is
  the same error for two different header lines, one on the first line and one on the
  second.  A negative count is accepted without any error.
\<close>

theorem C4_counterexample:
  "interpret_dfsadmin_report ''Live datanodes (x):'' = Inl (ValueError ''x'')
   \<and> interpret_dfsadmin_report ''\<newline>A (x):'' = Inl (ValueError ''x'')
   \<and> interpret_dfsadmin_report ''Live datanodes (-3):'' = Inr [(''live_datanodes'', List [])]"
  by code_simp

text \<open>
  Claim C4, amended: at a header line whose key holds an opening parenthesis and whose
  count text (between the last opening parenthesis of the line and the next closing one)
  is not an integer literal for \<open>int\<close>, the parser stops with the \<open>ValueError\<close> of \<open>int\<close>,
  which carries that count text only, and no count is assumed.  When the count text is an
  integer literal, negative ones included, the section opens as an array section with that
  count.  A header whose key holds no opening parenthesis opens a scalar section with
  count 1 and raises nothing.
\<close>

theorem C4_malformed_count_raises_ValueError:
  assumes "splitlines text = pre @ h # post" "dfs_loop dfs_init pre = Inr s"
    and "CHR '':'' \<in> set h" "strip (value_part h) = []"
  shows "(CHR ''('' \<in> set (key_part (strip h)) \<and> py_int (count_text (strip h)) = None
            \<longrightarrow> interpret_dfsadmin_report text = Inl (ValueError (count_text (strip h))))
       \<and> (\<forall>n. CHR ''('' \<in> set (key_part (strip h)) \<and> py_int (count_text (strip h)) = Some n
            \<longrightarrow> dfs_step s h
                  = Inr \<lparr>dfsadmin_dict = flush_on_header s,
                         current_section = Some (normalize_key (key_part (strip h))),
                         current_object_list = [], current_object = [],
                         objects_remaining = n, in_object_section = (0 < n),
                         is_array = True\<rparr>)
       \<and> (CHR ''('' \<notin> set (key_part (strip h))
            \<longrightarrow> dfs_step s h
                  = Inr \<lparr>dfsadmin_dict = flush_on_header s,
                         current_section = Some (normalize_key (key_part (strip h))),
                         current_object_list = [], current_object = [],
                         objects_remaining = 1, in_object_section = True,
                         is_array = False\<rparr>)"
proof (intro conjI impI allI)
  assume a: "CHR ''('' \<in> set (key_part (strip h)) \<and> py_int (count_text (strip h)) = None"
  then have "dfs_step s h = Inl (ValueError (count_text (strip h)))"
    using assms(3,4) by (simp add: open_section_malformed)
  then have "dfs_loop dfs_init (pre @ h # post) = Inl (ValueError (count_text (strip h)))"
    using assms(2) by (simp add: dfs_loop_append)
  then show "interpret_dfsadmin_report text = Inl (ValueError (count_text (strip h)))"
    by (simp add: interpret_dfsadmin_report_def assms(1))
next
  fix n
  assume "CHR ''('' \<in> set (key_part (strip h)) \<and> py_int (count_text (strip h)) = Some n"
  then show "dfs_step s h
      = Inr \<lparr>dfsadmin_dict = flush_on_header s,
             current_section = Some (normalize_key (key_part (strip h))),
             current_object_list = [], current_object = [],
             objects_remaining = n, in_object_section = (0 < n), is_array = True\<rparr>"
    using assms(3,4) by (simp add: open_section_counted)
next
  assume "CHR ''('' \<notin> set (key_part (strip h))"
  then show "dfs_step s h
      = Inr \<lparr>dfsadmin_dict = flush_on_header s,
             current_section = Some (normalize_key (key_part (strip h))),
             current_object_list = [], current_object = [],
             objects_remaining = 1, in_object_section = True, is_array = False\<rparr>"
    using assms(3,4) by (simp add: open_section_plain)
qed

text \<open>
  The amended claim C4 at the header \<open>Live datanodes (x):\<close> on the second line of a text,
  and at the header \<open>Name: \<close>.
\<close>

theorem C4_witness:
  "interpret_dfsadmin_report ''Total: 1\<newline>Live datanodes (x):\<newline>Name: a''
     = Inl (ValueError ''x'')
   \<and> dfs_step dfs_init ''Name: ''
     = Inr \<lparr>dfsadmin_dict = [], current_section = Some ''name'',
            current_object_list = [], current_object = [], objects_remaining = 1,
            in_object_section = True, is_array = False\<rparr>"
proof -
  have 1: "splitlines ''Total: 1\<newline>Live datanodes (x):\<newline>Name: a''
             = [''Total: 1''] @ ''Live datanodes (x):'' # [''Name: a'']"
    by code_simp
  have 2: "dfs_loop dfs_init [''Total: 1'']
             = Inr (dfs_init\<lparr>dfsadmin_dict := [(''total'', Leaf ''1'')]\<rparr>)"
    by code_simp
  have 3: "CHR '':'' \<in> set ''Live datanodes (x):''"
    "strip (value_part ''Live datanodes (x):'') = []"
    by code_simp+
  have 4: "CHR ''('' \<in> set (key_part (strip ''Live datanodes (x):''))"
    "py_int (count_text (strip ''Live datanodes (x):'')) = None"
    "count_text (strip ''Live datanodes (x):'') = ''x''"
    by code_simp+
  from C4_malformed_count_raises_ValueError [OF 1 2 3] 4
  have a: "interpret_dfsadmin_report ''Total: 1\<newline>Live datanodes (x):\<newline>Name: a''
     = Inl (ValueError ''x'')"
    by simp
  have 5: "splitlines ''Name: '' = [] @ ''Name: '' # []"
    by code_simp
  have 6: "dfs_loop dfs_init [] = Inr dfs_init" by simp
  have 7: "CHR '':'' \<in> set ''Name: ''" "strip (value_part ''Name: '') = []"
    by code_simp+
  have 8: "CHR ''('' \<notin> set (key_part (strip ''Name: ''))"
    "normalize_key (key_part (strip ''Name: '')) = ''name''"
    "flush_on_header dfs_init = []"
    by code_simp+
  from C4_malformed_count_raises_ValueError [OF 5 6 7] 8
  have b: "dfs_step dfs_init ''Name: ''
     = Inr \<lparr>dfsadmin_dict = [], current_section = Some ''name'',
            current_object_list = [], current_object = [], objects_remaining = 1,
            in_object_section = True, is_array = False\<rparr>"
    by simp
  from a b show ?thesis by simp
qed

section \<open>After the last counted entry of an array section\<close>

text \<open>
  Claim C2: the blank line that closes the last counted entry of an array section assigns
  the list into the report and closes the section, so that a pair that follows, before
  the next header, is written at the top level of the report.  On the input below, after
  the header \<open>A (1):\<close>, one entry and a blank line, the dictionary is still empty and the
  section \<open>a\<close> is still open; the pair \<open>y: 2\<close> that follows is written under \<open>a\<close>, and the end
  of the text replaces it by the list: the report has no key \<open>y\<close>.  After the scalar
  header \<open>A:\<close> the same lines end with \<open>y\<close> at the top level, since line 230 closes a
  scalar section at its blank line.
\<close>

theorem C2_pair_after_last_entry_is_lost:
  "dfs_loop dfs_init [''A (1):'', ''x: 1'', '''']
     = Inr \<lparr>dfsadmin_dict = [], current_section = Some ''a'',
            current_object_list = [[(''x'', ''1'')]], current_object = [],
            objects_remaining = 0, in_object_section = True, is_array = True\<rparr>
   \<and> dfs_loop dfs_init [''A (1):'', ''x: 1'', '''', ''y: 2'']
     = Inr \<lparr>dfsadmin_dict = [(''a'', Object [(''y'', ''2'')])], current_section = Some ''a'',
            current_object_list = [[(''x'', ''1'')]], current_object = [],
            objects_remaining = 0, in_object_section = True, is_array = True\<rparr>
   \<and> interpret_dfsadmin_report ''A (1):\<newline>x: 1\<newline>\<newline>y: 2''
     = Inr [(''a'', List [[(''x'', ''1'')]])]
   \<and> lookup (interpret_dfsadmin_report ''A (1):\<newline>x: 1\<newline>\<newline>y: 2'') ''y'' = None
   \<and> interpret_dfsadmin_report ''A:\<newline>x: 1\<newline>\<newline>y: 2''
     = Inr [(''a'', Object [(''x'', ''1'')]), (''y'', Leaf ''2'')]"
  by code_simp

text \<open>
  The two steps behind that result, in any state of an array section with one entry left
  to count: the blank line appends the entry and leaves the dictionary and the open
  section as they are, and the pair that follows goes under the name of the section.
  Whatever stands under that name is replaced by the list when the section is left, at
  the next header or at the end of the text.
\<close>

lemma section_stays_open_after_last_entry:
  assumes "is_array s" "in_object_section s" "current_section s = Some sec" "sec \<noteq> []"
    and "objects_remaining s = 1" "current_object s \<noteq> []"
    and "strip b = []"
    and "CHR '':'' \<in> set l" "strip (value_part l) \<noteq> []"
    and "map_of (dfsadmin_dict s) sec = None \<or> map_of (dfsadmin_dict s) sec = Some (Object ob)"
  shows "dfs_step s b
           = Inr (s\<lparr>current_object_list := current_object_list s @ [current_object s],
                    objects_remaining := 0, current_object := []\<rparr>)
       \<and> dfs_loop s [b, l]
           = Inr (s\<lparr>current_object_list := current_object_list s @ [current_object s],
                    objects_remaining := 0, current_object := [],
                    dfsadmin_dict :=
                      AList.update sec
                        (Object (AList.update (normalize_key (key_part (strip l)))
                                   (before_paren (strip (value_part l)))
                                   (if map_of (dfsadmin_dict s) sec = None then [] else ob)))
                        (dfsadmin_dict s)\<rparr>)"
proof -
  let ?s1 = "s\<lparr>current_object_list := current_object_list s @ [current_object s],
               objects_remaining := 0, current_object := []\<rparr>"
  let ?k = "normalize_key (key_part (strip l))"
  let ?v = "before_paren (strip (value_part l))"
  have 1: "dfs_step s b = Inr ?s1"
    using assms(1-7) by (simp add: dfs_step_blank close_entry_append)
  have n: "\<not> (in_object_section ?s1 \<and> 0 < objects_remaining ?s1)" by simp
  have c: "current_section ?s1 = Some sec" using assms(3) by simp
  have 2: "dfs_step ?s1 l = store_pair ?s1 ?k ?v"
    using assms(8,9) by (rule dfs_step_pair)
  have 3: "store_pair ?s1 ?k ?v
      = Inr (?s1\<lparr>dfsadmin_dict :=
           AList.update sec
             (Object (AList.update ?k ?v (if map_of (dfsadmin_dict s) sec = None then [] else ob)))
             (dfsadmin_dict s)\<rparr>)"
  proof (cases "map_of (dfsadmin_dict s) sec = None")
    case True
    then show ?thesis
      using store_pair_fresh [OF n c assms(4), of ?k ?v] by simp
  next
    case False
    with assms(10) have "map_of (dfsadmin_dict s) sec = Some (Object ob)" by simp
    then show ?thesis
      using store_pair_object [OF n c assms(4), of ob ?k ?v] False by simp
  qed
  show ?thesis using 1 2 3 by simp
qed

text \<open>Those two steps in the state reached after the lines \<open>A (1):\<close> and \<open>x: 1\<close>.\<close>

lemma section_stays_open_example:
  "dfs_loop dfs_init [''A (1):'', ''x: 1'']
     = Inr \<lparr>dfsadmin_dict = [], current_section = Some ''a'',
            current_object_list = [], current_object = [(''x'', ''1'')],
            objects_remaining = 1, in_object_section = True, is_array = True\<rparr>
   \<and> dfs_step \<lparr>dfsadmin_dict = [], current_section = Some ''a'',
            current_object_list = [], current_object = [(''x'', ''1'')],
            objects_remaining = 1, in_object_section = True, is_array = True\<rparr> ''''
     = Inr \<lparr>dfsadmin_dict = [], current_section = Some ''a'',
            current_object_list = [[(''x'', ''1'')]], current_object = [],
            objects_remaining = 0, in_object_section = True, is_array = True\<rparr>
   \<and> dfs_loop \<lparr>dfsadmin_dict = [], current_section = Some ''a'',
            current_object_list = [], current_object = [(''x'', ''1'')],
            objects_remaining = 1, in_object_section = True, is_array = True\<rparr> ['''', ''y: 2'']
     = Inr \<lparr>dfsadmin_dict = [(''a'', Object [(''y'', ''2'')])], current_section = Some ''a'',
            current_object_list = [[(''x'', ''1'')]], current_object = [],
            objects_remaining = 0, in_object_section = True, is_array = True\<rparr>"
proof -
  let ?s = "\<lparr>dfsadmin_dict = [], current_section = Some ''a'',
            current_object_list = [], current_object = [(''x'', ''1'')],
            objects_remaining = 1, in_object_section = True, is_array = True\<rparr>"
  have reach: "dfs_loop dfs_init [''A (1):'', ''x: 1''] = Inr ?s"
    by code_simp
  have k: "normalize_key (key_part (strip ''y: 2'')) = ''y''"
    "before_paren (strip (value_part ''y: 2'')) = ''2''"
    by code_simp+
  have h: "is_array ?s" "in_object_section ?s" "current_section ?s = Some ''a''" "''a'' \<noteq> []"
    "objects_remaining ?s = 1" "current_object ?s \<noteq> []"
    by simp_all
  have l: "strip '''' = []" "CHR '':'' \<in> set ''y: 2''" "strip (value_part ''y: 2'') \<noteq> []"
    by code_simp+
  have d: "map_of (dfsadmin_dict ?s) ''a'' = None
      \<or> map_of (dfsadmin_dict ?s) ''a'' = Some (Object [])"
    by simp
  from section_stays_open_after_last_entry [OF h l d]
  have c: "dfs_step ?s ''''
     = Inr \<lparr>dfsadmin_dict = [], current_section = Some ''a'',
            current_object_list = [[(''x'', ''1'')]], current_object = [],
            objects_remaining = 0, in_object_section = True, is_array = True\<rparr>
   \<and> dfs_loop ?s ['''', ''y: 2'']
     = Inr \<lparr>dfsadmin_dict = [(''a'', Object [(''y'', ''2'')])], current_section = Some ''a'',
            current_object_list = [[(''x'', ''1'')]], current_object = [],
            objects_remaining = 0, in_object_section = True, is_array = True\<rparr>"
    by (simp add: k del: dfs_loop.simps)
  show ?thesis by (rule conjI [OF reach c])
qed

lemma array_section_exit_assigns_list:
  assumes "current_section s = Some sec" "sec \<noteq> []" "is_array s"
  shows "map_of (flush_on_header s) sec = Some (List (current_object_list s))
       \<and> (\<exists>es. map_of (dfs_finish s) sec = Some (List es))"
  using assms by (simp add: flush_on_header_def dfs_finish_def update_conv')

section \<open>An array section whose count is zero\<close>



text \<open>
  When the name of such a section is already bound to a string or to a list, the
  assignment of line 222 raises and no report is returned.
\<close>

lemma section_name_clash:
  "interpret_dfsadmin_report ''a: 1\<newline>A (0):\<newline>k: v'' = Inl TypeError"
  by code_simp

section \<open>The length of the list of an array section\<close>

text \<open>
  Claim C1: when a header declares the count \<open>n\<close> and \<open>n\<close> entries delimited by blank lines
  follow it, the report maps the name of the section to a list of length \<open>n\<close>; when the
  text ends after \<open>k < n\<close> entries, the parser returns without an error and the list has
  length \<open>k\<close>.  On the first input below the header declares two entries, two entries
  delimited by a blank line follow, and the next header comes right after the second: the
  list has length one, since a header assigns the list without the entry in progress.
  With a blank line before that header, and when the text ends after the second entry,
  the list has length two.
\<close>

theorem C1_header_after_last_entry_shortens_list:
  "interpret_dfsadmin_report
     ''Live datanodes (2):\<newline>Name: a\<newline>\<newline>Name: b\<newline>Dead datanodes (0):''
     = Inr [(''live_datanodes'', List [[(''name'', ''a'')]]), (''dead_datanodes'', List [])]
   \<and> entry_count [''Name: a'', '''', ''Name: b''] = 2
   \<and> interpret_dfsadmin_report
     ''Live datanodes (2):\<newline>Name: a\<newline>\<newline>Name: b\<newline>\<newline>Dead datanodes (0):''
     = Inr [(''live_datanodes'', List [[(''name'', ''a'')], [(''name'', ''b'')]]),
            (''dead_datanodes'', List [])]
   \<and> interpret_dfsadmin_report ''Live datanodes (2):\<newline>Name: a\<newline>\<newline>Name: b''
     = Inr [(''live_datanodes'', List [[(''name'', ''a'')], [(''name'', ''b'')]])]"
  by code_simp

text \<open>
  Where the length is right: the lines \<open>body\<close> of the section are blank lines and pairs that
  make \<open>entry_count body \<le> n\<close> entries, and either the section is the last of the text, and
  then the parser returns, or its last entry is closed by a blank line before the header
  that follows.  The list then has length \<open>entry_count body\<close> in every report the parser
  returns.
\<close>

lemma array_section_length:
  assumes lines: "splitlines text = pre @ h # body @ post"
    and pre: "dfs_loop dfs_init pre = Inr s0"
    and h: "CHR '':'' \<in> set h" "strip (value_part h) = []"
      "CHR ''('' \<in> set (key_part (strip h))" "py_int (count_text (strip h)) = Some (int n)"
    and body: "\<forall>l\<in>set body. strip l = [] \<or> (CHR '':'' \<in> set l \<and> strip (value_part l) \<noteq> [])"
      "entry_count body \<le> n"
    and post: "post = [] \<or> ((body = [] \<or> strip (last body) = [])
                 \<and> CHR '':'' \<in> set (hd post) \<and> strip (value_part (hd post)) = [])"
      "\<forall>l\<in>set post. CHR '':'' \<in> set l \<longrightarrow>
         normalize_key (key_part (strip l)) \<noteq> normalize_key (key_part (strip h))"
  shows "(post = [] \<longrightarrow> (\<exists>r. interpret_dfsadmin_report text = Inr r))
       \<and> (\<forall>r. interpret_dfsadmin_report text = Inr r \<longrightarrow>
            (\<exists>es. map_of r (normalize_key (key_part (strip h))) = Some (List es)
               \<and> length es = entry_count body))"
proof -
  let ?sec = "normalize_key (key_part (strip h))"
  have sec: "?sec \<noteq> []" using h(3) by (rule normalize_key_nonempty)
  let ?sh = "\<lparr>dfsadmin_dict = flush_on_header s0, current_section = Some ?sec,
              current_object_list = [], current_object = [], objects_remaining = int n,
              in_object_section = (0 < int n), is_array = True\<rparr>"
  have sh: "dfs_step s0 h = Inr ?sh"
    using h by (rule open_section_counted)
  have "\<exists>s'. dfs_loop ?sh body = Inr s'
           \<and> current_section s' = Some ?sec \<and> is_array s' \<and> in_object_section s' = (0 < n)
           \<and> dfsadmin_dict s' = dfsadmin_dict ?sh
           \<and> objects_remaining s' = int n - int (length (current_object_list s'))
           \<and> length (current_object_list s') + (if current_object s' = [] then 0 else 1)
                = entry_count body
           \<and> (current_object s' \<noteq> [] \<longleftrightarrow> body \<noteq> [] \<and> strip (last body) \<noteq> [])"
    by (rule array_section_loop [OF _ _ _ _ _ _ body]) simp_all
  then obtain s1 where s1: "dfs_loop ?sh body = Inr s1"
    "current_section s1 = Some ?sec" "is_array s1"
    "length (current_object_list s1) + (if current_object s1 = [] then 0 else 1)
       = entry_count body"
    "current_object s1 \<noteq> [] \<longleftrightarrow> body \<noteq> [] \<and> strip (last body) \<noteq> []"
    by blast
  have run: "dfs_loop dfs_init (pre @ h # body) = Inr s1"
    using pre sh s1(1) by (simp add: dfs_loop_append)
  have "splitlines text = (pre @ h # body) @ post"
    by (simp add: lines)
  then have all: "dfs_loop dfs_init (splitlines text) = dfs_loop s1 post"
    using run by (simp only: dfs_loop_append sum.case)
  have fin: "\<exists>es. map_of (dfs_finish s1) ?sec = Some (List es) \<and> length es = entry_count body"
    using s1(2,3,4) sec by (auto simp: dfs_finish_def update_conv')
  have returns: "post = [] \<longrightarrow> (\<exists>r. interpret_dfsadmin_report text = Inr r)"
    using all by (simp add: interpret_dfsadmin_report_def)
  have result: "\<exists>es. map_of r ?sec = Some (List es) \<and> length es = entry_count body"
    if ret: "interpret_dfsadmin_report text = Inr r" for r
  proof -
    from ret all obtain sf where sf: "dfs_loop s1 post = Inr sf" and r: "r = dfs_finish sf"
      by (auto simp: interpret_dfsadmin_report_def split: sum.splits)
    show ?thesis
    proof (cases post)
      case Nil
      with sf have "sf = s1" by simp
      then show ?thesis using fin r by simp
    next
      case (Cons h2 rest)
      with post(1) have closed: "body = [] \<or> strip (last body) = []"
        and h2: "CHR '':'' \<in> set h2" "strip (value_part h2) = []"
        by simp_all
      from closed s1(5) have empty: "current_object s1 = []" by blast
      from post(2) Cons h2(1) have k2: "normalize_key (key_part (strip h2)) \<noteq> ?sec" by simp
      from sf Cons obtain s2 where
        s2: "dfs_step s1 h2 = Inr s2" "dfs_loop s2 rest = Inr sf"
        by (auto split: sum.splits)
      from s2(1) have "open_section s1 (strip h2) (normalize_key (key_part (strip h2))) = Inr s2"
        using h2 by (simp add: dfs_step_header)
      from open_section_Inr [OF this]
      have d2: "dfsadmin_dict s2 = flush_on_header s1"
        and c2: "current_section s2 = Some (normalize_key (key_part (strip h2)))"
        by simp_all
      have m2: "map_of (dfsadmin_dict s2) ?sec = Some (List (current_object_list s1))"
        using s1(2,3) sec by (simp add: d2 flush_on_header_def update_conv')
      have n2: "current_section s2 \<noteq> Some ?sec" using c2 k2 by simp
      have rest: "\<forall>l\<in>set rest. CHR '':'' \<in> set l \<longrightarrow> normalize_key (key_part (strip l)) \<noteq> ?sec"
        using post(2) Cons by simp
      from dfs_loop_other [OF s2(2) n2 rest] m2
      have "map_of (dfsadmin_dict sf) ?sec = Some (List (current_object_list s1))"
        "current_section sf \<noteq> Some ?sec"
        by simp_all
      then have "map_of r ?sec = Some (List (current_object_list s1))"
        by (simp add: r dfs_finish_other)
      moreover have "length (current_object_list s1) = entry_count body"
        using s1(4) empty by simp
      ultimately show ?thesis by blast
    qed
  qed
  from returns result show ?thesis by blast
qed

text \<open>
  That fact on a text that declares three entries and ends after two, and on a text that
  declares two entries, holds two, and goes on with another section.
\<close>

lemma array_section_length_example:
  "(\<exists>r es. interpret_dfsadmin_report
               ''Live datanodes (3):\<newline>\<newline>Name: a\<newline>Rack: r\<newline>\<newline>Name: b'' = Inr r
       \<and> map_of r ''live_datanodes'' = Some (List es) \<and> length es = 2)
   \<and> (\<exists>es. map_of [(''live_datanodes'', List [[(''name'', ''a'')], [(''name'', ''b'')]]),
                    (''dead_datanodes'', List [])] ''live_datanodes'' = Some (List es)
       \<and> length es = 2)"
proof -
  let ?t1 = "''Live datanodes (3):\<newline>\<newline>Name: a\<newline>Rack: r\<newline>\<newline>Name: b''"
  let ?b1 = "['''', ''Name: a'', ''Rack: r'', '''', ''Name: b'']"
  have 1: "splitlines ?t1 = [] @ ''Live datanodes (3):'' # ?b1 @ []"
    by code_simp
  have 2: "dfs_loop dfs_init [] = Inr dfs_init" by simp
  have 3: "CHR '':'' \<in> set ''Live datanodes (3):''"
    "strip (value_part ''Live datanodes (3):'') = []"
    "CHR ''('' \<in> set (key_part (strip ''Live datanodes (3):''))"
    "py_int (count_text (strip ''Live datanodes (3):'')) = Some (int 3)"
    by code_simp+
  have 4: "\<forall>l\<in>set ?b1. strip l = [] \<or> (CHR '':'' \<in> set l \<and> strip (value_part l) \<noteq> [])"
    "entry_count ?b1 \<le> 3"
    by code_simp+
  have 5: "[] = [] \<or> ((?b1 = [] \<or> strip (last ?b1) = [])
      \<and> CHR '':'' \<in> set (hd []) \<and> strip (value_part (hd [])) = [])"
    "\<forall>l\<in>set []. CHR '':'' \<in> set l \<longrightarrow>
       normalize_key (key_part (strip l)) \<noteq> normalize_key (key_part (strip ''Live datanodes (3):''))"
    by simp_all
  have k: "normalize_key (key_part (strip ''Live datanodes (3):'')) = ''live_datanodes''"
    "entry_count ?b1 = 2"
    by code_simp+
  from array_section_length [OF 1 2 3 4 5]
  have a: "\<exists>r es. interpret_dfsadmin_report ?t1 = Inr r
       \<and> map_of r ''live_datanodes'' = Some (List es) \<and> length es = 2"
    unfolding k by blast
  let ?t2 = "''Live datanodes (2):\<newline>Name: a\<newline>\<newline>Name: b\<newline>\<newline>Dead datanodes (0):''"
  let ?b2 = "[''Name: a'', '''', ''Name: b'', '''']"
  let ?p2 = "[''Dead datanodes (0):'']"
  let ?r2 = "[(''live_datanodes'', List [[(''name'', ''a'')], [(''name'', ''b'')]]),
              (''dead_datanodes'', List [])]"
  have 6: "splitlines ?t2 = [] @ ''Live datanodes (2):'' # ?b2 @ ?p2"
    by code_simp
  have 7: "CHR '':'' \<in> set ''Live datanodes (2):''"
    "strip (value_part ''Live datanodes (2):'') = []"
    "CHR ''('' \<in> set (key_part (strip ''Live datanodes (2):''))"
    "py_int (count_text (strip ''Live datanodes (2):'')) = Some (int 2)"
    by code_simp+
  have 8: "\<forall>l\<in>set ?b2. strip l = [] \<or> (CHR '':'' \<in> set l \<and> strip (value_part l) \<noteq> [])"
    "entry_count ?b2 \<le> 2"
    by code_simp+
  have 9: "?p2 = [] \<or> ((?b2 = [] \<or> strip (last ?b2) = [])
      \<and> CHR '':'' \<in> set (hd ?p2) \<and> strip (value_part (hd ?p2)) = [])"
    "\<forall>l\<in>set ?p2. CHR '':'' \<in> set l \<longrightarrow>
       normalize_key (key_part (strip l)) \<noteq> normalize_key (key_part (strip ''Live datanodes (2):''))"
    by code_simp+
  have k2: "normalize_key (key_part (strip ''Live datanodes (2):'')) = ''live_datanodes''"
    "entry_count ?b2 = 2"
    by code_simp+
  have r2: "interpret_dfsadmin_report ?t2 = Inr ?r2"
    by code_simp
  from array_section_length [OF 6 2 7 8 9] r2
  have b: "\<exists>es. map_of ?r2 ''live_datanodes'' = Some (List es) \<and> length es = 2"
    unfolding k2 by blast
  from a b show ?thesis by blast
qed


end
